theory Spec2Isabelle
  imports Main
begin

section \<open>Promize: the first draft of the class in \<^verbatim>\<open>src/Promise.js\<close>\<close>

text \<open>
  \<^verbatim>\<open>src/Promise.js\<close> holds three drafts of the class \<^verbatim>\<open>Promize\<close>, one after the other.
  The development embeds the first draft (lines 1 to 354), the only one with the
  combinators \<^verbatim>\<open>all\<close>, \<^verbatim>\<open>allSettled\<close> and \<^verbatim>\<open>race\<close>.

  JavaScript objects are shared and mutable, so the embedding passes an explicit
  \<open>world\<close>: a store of promise objects, a store of the local variables that the closures
  of \<^verbatim>\<open>all\<close> and \<^verbatim>\<open>allSettled\<close> capture, the microtask queue of the runtime and the
  console. Every function value the class creates or receives is one constructor of the
  datatype \<open>fn\<close>, holding what the closure captured; \<open>call_fn\<close> is its body.
\<close>

subsection \<open>Values\<close>

datatype STATES = PENDING | REJECTED | FULFILLED

text \<open>The string constants of the object \<^verbatim>\<open>STATES\<close>.\<close>

fun STATES_string :: "STATES \<Rightarrow> string" where
  "STATES_string PENDING = ''PENDING''"
| "STATES_string REJECTED = ''REJECTED''"
| "STATES_string FULFILLED = ''FULFILLED''"

type_synonym addr = nat

text \<open>
  \<open>Ref p\<close> is a reference to the \<^verbatim>\<open>Promize\<close> object at address \<open>p\<close>; it is the only value
  for which \<^verbatim>\<open>instanceof Promize\<close> holds. \<open>ResultArr f\<close> is a reference to the array
  \<^verbatim>\<open>result\<close> of the call of \<^verbatim>\<open>all\<close> or \<^verbatim>\<open>allSettled\<close> with activation \<open>f\<close>: the array is
  handed to \<^verbatim>\<open>resolve\<close> by reference and written afterwards, so it lives in the store.
  \<open>Arr\<close> is an array the caller supplies as a plain value (the class never writes to it).
  \<open>StatusValue s v\<close> is the object \<^verbatim>\<open>{ status: s, value: v }\<close> and \<open>StatusReason s r\<close> the object
  \<^verbatim>\<open>{ status: s, reason: r }\<close>. \<open>TypeError\<close> is the error object the runtime throws when
  something that is not a function is called.

  The closures, with what they capture:
  \<^item> \<open>OnFulfilledBind p\<close>, \<open>OnRejectedBind p\<close>: the fields \<^verbatim>\<open>#onFulfilledBind\<close> and
    \<^verbatim>\<open>#onRejectedBind\<close> of the promise \<open>p\<close> (the \<^verbatim>\<open>resolve\<close> and \<^verbatim>\<open>reject\<close> of its executor);
  \<^item> \<open>ConsoleLog\<close>: \<^verbatim>\<open>console.log\<close>, the callback the source file itself passes to \<^verbatim>\<open>then\<close>;
  \<^item> \<open>AllThen f n outer i\<close>: the arrow function \<^verbatim>\<open>(val) => {...}\<close> of \<^verbatim>\<open>all\<close> (lines 165 to 177),
    with the activation \<open>f\<close> (\<^verbatim>\<open>completedPromises\<close>, \<^verbatim>\<open>result\<close>), \<open>n\<close> = \<^verbatim>\<open>values.length\<close>, the
    promise \<open>outer\<close> whose \<^verbatim>\<open>resolve\<close> it calls, and the index \<open>i\<close>;
  \<^item> \<open>AllSettledThen f n outer i\<close>, \<open>AllSettledCatch f i\<close>, \<open>AllSettledFinally f n outer\<close>: the three
    arrow functions of \<^verbatim>\<open>allSettled\<close> (lines 212 to 234);
  \<^item> \<open>FinallyThen cb\<close>, \<open>FinallyCatch cb\<close>: the two arrow functions of \<^verbatim>\<open>finally\<close>
    (lines 115 to 121), capturing \<^verbatim>\<open>callback\<close>.
\<close>

datatype val =
    Undefined
  | Num int
  | Str string
  | Arr "val list"
  | TypeError
  | StatusValue string val
  | StatusReason string val
  | ResultArr addr
  | Ref addr
  | Func fn
and fn =
    OnFulfilledBind addr
  | OnRejectedBind addr
  | ConsoleLog
  | AllThen addr nat addr nat
  | AllSettledThen addr nat addr nat
  | AllSettledCatch addr nat
  | AllSettledFinally addr nat addr
  | FinallyThen val
  | FinallyCatch val

text \<open>\<^verbatim>\<open>v instanceof Promize\<close> and \<^verbatim>\<open>typeof v === 'function'\<close>.\<close>

fun instanceof_Promize :: "val \<Rightarrow> bool" where
  "instanceof_Promize (Ref p) = True"
| "instanceof_Promize v = False"

fun is_function :: "val \<Rightarrow> bool" where
  "is_function (Func f) = True"
| "is_function v = False"

text \<open>
  The two arrow functions that \<^verbatim>\<open>then\<close> pushes (lines 58 to 80 and 82 to 101): each
  captures the handler it was given and the promise \<open>d\<close> that \<^verbatim>\<open>then\<close> returns, whose
  \<^verbatim>\<open>resolve\<close> and \<^verbatim>\<open>reject\<close> it calls.
\<close>

datatype callback = ThenCallback val addr | CatchCallback val addr

text \<open>
  The arrow functions handed to \<^verbatim>\<open>queueMicrotask\<close> by \<^verbatim>\<open>#onFulfilled\<close> (lines 283 to 308)
  and \<^verbatim>\<open>#onRejected\<close> (lines 317 to 345): the promise and the argument they capture.
\<close>

datatype microtask = OnFulfilledTask addr val | OnRejectedTask addr val

fun target :: "microtask \<Rightarrow> addr" where
  "target (OnFulfilledTask p v) = p"
| "target (OnRejectedTask p v) = p"

text \<open>What a call does: it returns a value or throws one.\<close>

datatype completion = Return val | Throw val

subsection \<open>The world\<close>

record promize =
  pvalue :: val
  pstate :: STATES
  thenCallbacks :: "callback list"
  catchCallbacks :: "callback list"

text \<open>The local variables of one call of \<^verbatim>\<open>all\<close> or \<^verbatim>\<open>allSettled\<close> (lines 139 and 143).\<close>

record activation =
  completedPromises :: int
  result :: "val list"

record world =
  heap :: "addr \<Rightarrow> promize"
  fresh :: addr
  activations :: "addr \<Rightarrow> activation"
  fresh_activation :: addr
  microtasks :: "microtask list"
  console :: "val list"

text \<open>A world with no object allocated, an empty queue and an empty console.\<close>

definition blank :: promize where
  "blank = \<lparr>pvalue = Undefined, pstate = PENDING, thenCallbacks = [], catchCallbacks = []\<rparr>"

definition world0 :: world where
  "world0 = \<lparr>heap = (\<lambda>a. blank), fresh = 0,
     activations = (\<lambda>a. \<lparr>completedPromises = 0, result = []\<rparr>), fresh_activation = 0,
     microtasks = [], console = []\<rparr>"

definition update_promize :: "addr \<Rightarrow> (promize \<Rightarrow> promize) \<Rightarrow> world \<Rightarrow> world" where
  "update_promize p g w = w\<lparr>heap := (heap w)(p := g (heap w p))\<rparr>"

definition update_activation :: "addr \<Rightarrow> (activation \<Rightarrow> activation) \<Rightarrow> world \<Rightarrow> world" where
  "update_activation f g w = w\<lparr>activations := (activations w)(f := g (activations w f))\<rparr>"

text \<open>
  \<^verbatim>\<open>result[i] = v\<close> on a JavaScript array: an index past the end extends the array. The
  slots in between are holes, which read as \<^verbatim>\<open>undefined\<close>; they are \<open>Undefined\<close> here.
\<close>

definition array_set :: "val list \<Rightarrow> nat \<Rightarrow> val \<Rightarrow> val list" where
  "array_set xs i v =
     (if i < length xs then xs[i := v]
      else xs @ replicate (i - length xs) Undefined @ [v])"

definition result_set :: "addr \<Rightarrow> nat \<Rightarrow> val \<Rightarrow> world \<Rightarrow> world" where
  "result_set f i v = update_activation f (\<lambda>a. a\<lparr>result := array_set (result a) i v\<rparr>)"

definition increment :: "addr \<Rightarrow> world \<Rightarrow> world" where
  "increment f = update_activation f (\<lambda>a. a\<lparr>completedPromises := completedPromises a + 1\<rparr>)"

text \<open>\<^verbatim>\<open>String.prototype.toLowerCase\<close> on ASCII.\<close>

definition toLowerCase :: "string \<Rightarrow> string" where
  "toLowerCase s =
     map (\<lambda>c. if 65 \<le> (of_char c :: nat) \<and> (of_char c :: nat) \<le> 90
               then char_of ((of_char c :: nat) + 32) else c) s"

subsection \<open>The private methods\<close>

text \<open>The runtime's \<^verbatim>\<open>queueMicrotask\<close>: the task goes to the end of the queue.\<close>

definition queueMicrotask :: "microtask \<Rightarrow> world \<Rightarrow> world" where
  "queueMicrotask m w = w\<lparr>microtasks := microtasks w @ [m]\<rparr>"

text \<open>
  \<^verbatim>\<open>#onFulfilled(value)\<close> and \<^verbatim>\<open>#onRejected(reason)\<close> do nothing but queue their arrow
  function; its body is \<open>run_microtask\<close> below.
\<close>

definition onFulfilled :: "addr \<Rightarrow> val \<Rightarrow> world \<Rightarrow> world" where
  "onFulfilled this v = queueMicrotask (OnFulfilledTask this v)"

definition onRejected :: "addr \<Rightarrow> val \<Rightarrow> world \<Rightarrow> world" where
  "onRejected this reason = queueMicrotask (OnRejectedTask this reason)"

definition updateStateAndValue :: "addr \<Rightarrow> STATES \<Rightarrow> val \<Rightarrow> world \<Rightarrow> world" where
  "updateStateAndValue this s v = update_promize this (\<lambda>p. p\<lparr>pstate := s, pvalue := v\<rparr>)"

text \<open>
  The bodies of the closures. \<open>call v arg\<close> is the call \<^verbatim>\<open>v(arg)\<close> of any value: calling
  what is not a function throws a \<^verbatim>\<open>TypeError\<close>. A call without argument, as
  \<^verbatim>\<open>callback()\<close> in \<^verbatim>\<open>finally\<close>, passes \<open>Undefined\<close>.
\<close>

fun call_fn :: "fn \<Rightarrow> val \<Rightarrow> world \<Rightarrow> completion \<times> world"
  and call :: "val \<Rightarrow> val \<Rightarrow> world \<Rightarrow> completion \<times> world" where
  "call_fn (OnFulfilledBind p) v w = (Return Undefined, onFulfilled p v w)"
| "call_fn (OnRejectedBind p) v w = (Return Undefined, onRejected p v w)"
| "call_fn ConsoleLog v w = (Return Undefined, w\<lparr>console := console w @ [v]\<rparr>)"
| "call_fn (AllThen f n outer i) v w =
     (let w1 = increment f w;
          w2 = result_set f i v w1;
          w3 = (if completedPromises (activations w2 f) = int n
                then onFulfilled outer (ResultArr f) w2 else w2)
      in (Return Undefined, w3))"
| "call_fn (AllSettledThen f n outer i) v w =
     (let w1 = result_set f i (StatusValue (toLowerCase (STATES_string FULFILLED)) v) w;
          w2 = (if completedPromises (activations w1 f) = int n
                then onFulfilled outer (ResultArr f) w1 else w1)
      in (Return Undefined, w2))"
| "call_fn (AllSettledCatch f i) reason w =
     (Return Undefined,
      result_set f i (StatusReason (toLowerCase (STATES_string REJECTED)) reason) w)"
| "call_fn (AllSettledFinally f n outer) v w =
     (let w1 = increment f w;
          w2 = (if completedPromises (activations w1 f) = int n
                then onFulfilled outer (ResultArr f) w1 else w1)
      in (Return Undefined, w2))"
| "call_fn (FinallyThen cb) r w =
     (case call cb Undefined w of
        (Return x, w') \<Rightarrow> (Return r, w')
      | (Throw e, w') \<Rightarrow> (Throw e, w'))"
| "call_fn (FinallyCatch cb) r w =
     (case call cb Undefined w of
        (Return x, w') \<Rightarrow> (Throw r, w')
      | (Throw e, w') \<Rightarrow> (Throw e, w'))"
| "call (Func f) v w = call_fn f v w"
| "call Undefined v w = (Throw TypeError, w)"
| "call (Num k) v w = (Throw TypeError, w)"
| "call (Str s) v w = (Throw TypeError, w)"
| "call (Arr xs) v w = (Throw TypeError, w)"
| "call TypeError v w = (Throw TypeError, w)"
| "call (StatusValue s x) v w = (Throw TypeError, w)"
| "call (StatusReason s x) v w = (Throw TypeError, w)"
| "call (ResultArr f) v w = (Throw TypeError, w)"
| "call (Ref p) v w = (Throw TypeError, w)"

text \<open>
  One callback of \<^verbatim>\<open>#thenCallbacks\<close> or \<^verbatim>\<open>#catchCallbacks\<close> applied to \<^verbatim>\<open>result\<close>
  (lines 58 to 101). Each has its own \<^verbatim>\<open>try\<close>/\<^verbatim>\<open>catch\<close>, so it never throws.
\<close>

fun run_callback :: "callback \<Rightarrow> val \<Rightarrow> world \<Rightarrow> world" where
  "run_callback (ThenCallback onF d) r w =
     (if \<not> is_function onF then onFulfilled d r w
      else (case call onF r w of
              (Return x, w') \<Rightarrow> onFulfilled d x w'
            | (Throw error, w') \<Rightarrow> onRejected d error w'))"
| "run_callback (CatchCallback onR d) r w =
     (if \<not> is_function onR then onRejected d r w
      else (case call onR r w of
              (Return x, w') \<Rightarrow> onFulfilled d x w'
            | (Throw error, w') \<Rightarrow> onRejected d error w'))"

text \<open>\<^verbatim>\<open>callbacks.forEach(callback => callback(this.#value))\<close>.\<close>

fun forEach_callback :: "callback list \<Rightarrow> val \<Rightarrow> world \<Rightarrow> world" where
  "forEach_callback [] v w = w"
| "forEach_callback (cb # cbs) v w = forEach_callback cbs v (run_callback cb v w)"

text \<open>\<^verbatim>\<open>#executeCallbacks()\<close> (lines 257 to 275).\<close>

definition executeCallbacks :: "addr \<Rightarrow> world \<Rightarrow> world" where
  "executeCallbacks this w =
     (let w1 = (if pstate (heap w this) = FULFILLED
                then update_promize this (\<lambda>p. p\<lparr>thenCallbacks := []\<rparr>)
                       (forEach_callback (thenCallbacks (heap w this)) (pvalue (heap w this)) w)
                else w)
      in if pstate (heap w1 this) = REJECTED
         then update_promize this (\<lambda>p. p\<lparr>catchCallbacks := []\<rparr>)
                (forEach_callback (catchCallbacks (heap w1 this)) (pvalue (heap w1 this)) w1)
         else w1)"

subsection \<open>The constructor and the public methods\<close>

text \<open>
  \<^verbatim>\<open>new Promize(executor)\<close> (lines 27 to 54): the field initialisers, then the executor
  with the two bound methods of the new object, and \<^verbatim>\<open>#onRejectedBind(error)\<close> when the
  executor throws. The executor is a function of the new object's address.
\<close>

definition new_Promize :: "(addr \<Rightarrow> world \<Rightarrow> completion \<times> world) \<Rightarrow> world \<Rightarrow> addr \<times> world" where
  "new_Promize executor w =
     (let this = fresh w;
          w1 = w\<lparr>heap := (heap w)(this := blank), fresh := Suc this\<rparr>
      in case executor this w1 of
           (Return x, w2) \<Rightarrow> (this, w2)
         | (Throw error, w2) \<Rightarrow> (this, onRejected this error w2))"

definition Promize_then :: "addr \<Rightarrow> val \<Rightarrow> val \<Rightarrow> world \<Rightarrow> addr \<times> world" where
  "Promize_then this onF onR =
     new_Promize (\<lambda>d w.
       (Return Undefined,
        executeCallbacks this
          (update_promize this (\<lambda>p. p\<lparr>catchCallbacks := catchCallbacks p @ [CatchCallback onR d]\<rparr>)
            (update_promize this (\<lambda>p. p\<lparr>thenCallbacks := thenCallbacks p @ [ThenCallback onF d]\<rparr>) w))))"

definition Promize_catch :: "addr \<Rightarrow> val \<Rightarrow> world \<Rightarrow> addr \<times> world" where
  "Promize_catch this cb = Promize_then this Undefined cb"

definition Promize_finally :: "addr \<Rightarrow> val \<Rightarrow> world \<Rightarrow> addr \<times> world" where
  "Promize_finally this cb = Promize_then this (Func (FinallyThen cb)) (Func (FinallyCatch cb))"

text \<open>\<^verbatim>\<open>Promize.resolve(value)\<close> and \<^verbatim>\<open>Promize.reject(value)\<close> (lines 124 to 134).\<close>

definition Promize_resolve :: "val \<Rightarrow> world \<Rightarrow> addr \<times> world" where
  "Promize_resolve v = new_Promize (\<lambda>this w. (Return Undefined, onFulfilled this v w))"

definition Promize_reject :: "val \<Rightarrow> world \<Rightarrow> addr \<times> world" where
  "Promize_reject v = new_Promize (\<lambda>this w. (Return Undefined, onRejected this v w))"

subsection \<open>The microtasks and the event loop\<close>

text \<open>
  The body of the arrow function queued by \<^verbatim>\<open>#onFulfilled\<close> (lines 283 to 308) and by
  \<^verbatim>\<open>#onRejected\<close> (lines 317 to 345).
\<close>

fun run_microtask :: "microtask \<Rightarrow> world \<Rightarrow> world" where
  "run_microtask (OnFulfilledTask this v) w =
     (if pstate (heap w this) \<noteq> PENDING then w
      else (case v of
              Ref q \<Rightarrow> snd (Promize_then q (Func (OnFulfilledBind this)) (Func (OnRejectedBind this)) w)
            | _ \<Rightarrow> executeCallbacks this (updateStateAndValue this FULFILLED v w)))"
| "run_microtask (OnRejectedTask this reason) w =
     (if pstate (heap w this) \<noteq> PENDING then w
      else (case reason of
              Ref q \<Rightarrow> snd (Promize_then q (Func (OnFulfilledBind this)) (Func (OnRejectedBind this)) w)
            | _ \<Rightarrow> executeCallbacks this (updateStateAndValue this REJECTED reason w)))"

text \<open>
  The runtime takes the first task off the queue and runs it. \<open>tick\<close> is one such turn,
  \<open>run k\<close> is \<open>k\<close> turns, and \<open>drain fuel\<close> runs until the queue is empty: it is \<open>None\<close>
  when the fuel does not suffice.
\<close>

definition tick :: "world \<Rightarrow> world" where
  "tick w = (case microtasks w of [] \<Rightarrow> w | m # ms \<Rightarrow> run_microtask m (w\<lparr>microtasks := ms\<rparr>))"

fun run :: "nat \<Rightarrow> world \<Rightarrow> world" where
  "run 0 w = w"
| "run (Suc k) w = run k (tick w)"

fun drain :: "nat \<Rightarrow> world \<Rightarrow> world option" where
  "drain 0 w = (if microtasks w = [] then Some w else None)"
| "drain (Suc k) w = (if microtasks w = [] then Some w else drain k (tick w))"

subsection \<open>The combinators\<close>

text \<open>
  The loop of \<^verbatim>\<open>all\<close> (lines 149 to 179) from index \<open>i\<close> on, over the elements that are
  left; \<open>n\<close> is \<^verbatim>\<open>values.length\<close>.
\<close>

fun all_loop :: "addr \<Rightarrow> nat \<Rightarrow> addr \<Rightarrow> nat \<Rightarrow> val list \<Rightarrow> world \<Rightarrow> world" where
  "all_loop f n outer i [] w = w"
| "all_loop f n outer i (Ref p # rest) w =
     (let (d, w1) = Promize_then p (Func (AllThen f n outer i)) Undefined w;
          (e, w2) = Promize_catch d (Func (OnRejectedBind outer)) w1
      in all_loop f n outer (Suc i) rest w2)"
| "all_loop f n outer i (promise # rest) w =
     (let w1 = (if completedPromises (activations w f) = int n - 1
                then onFulfilled outer (ResultArr f) w else w);
          w2 = result_set f i promise w1;
          w3 = increment f w2
      in all_loop f n outer (Suc i) rest w3)"

text \<open>\<^verbatim>\<open>let completedPromises = 0; const result = [];\<close>\<close>

definition new_activation :: "world \<Rightarrow> addr \<times> world" where
  "new_activation w =
     (fresh_activation w,
      w\<lparr>activations := (activations w)(fresh_activation w := \<lparr>completedPromises = 0, result = []\<rparr>),
        fresh_activation := Suc (fresh_activation w)\<rparr>)"

definition Promize_all :: "val list \<Rightarrow> world \<Rightarrow> addr \<times> world" where
  "Promize_all vs w =
     (let (f, w0) = new_activation w
      in new_Promize (\<lambda>outer w'. (Return Undefined, all_loop f (length vs) outer 0 vs w')) w0)"

text \<open>The loop of \<^verbatim>\<open>allSettled\<close> (lines 196 to 235).\<close>

fun allSettled_loop :: "addr \<Rightarrow> nat \<Rightarrow> addr \<Rightarrow> nat \<Rightarrow> val list \<Rightarrow> world \<Rightarrow> world" where
  "allSettled_loop f n outer i [] w = w"
| "allSettled_loop f n outer i (Ref p # rest) w =
     (let (d, w1) = Promize_then p (Func (AllSettledThen f n outer i)) Undefined w;
          (e, w2) = Promize_catch d (Func (AllSettledCatch f i)) w1;
          (g, w3) = Promize_finally e (Func (AllSettledFinally f n outer)) w2
      in allSettled_loop f n outer (Suc i) rest w3)"
| "allSettled_loop f n outer i (promise # rest) w =
     (let w1 = (if completedPromises (activations w f) = int n - 1
                then onFulfilled outer (ResultArr f) w else w);
          w2 = result_set f i (StatusValue (toLowerCase (STATES_string FULFILLED)) promise) w1;
          w3 = increment f w2
      in allSettled_loop f n outer (Suc i) rest w3)"

definition Promize_allSettled :: "val list \<Rightarrow> world \<Rightarrow> addr \<times> world" where
  "Promize_allSettled vs w =
     (let (f, w0) = new_activation w
      in new_Promize (\<lambda>outer w'. (Return Undefined, allSettled_loop f (length vs) outer 0 vs w')) w0)"

text \<open>
  \<^verbatim>\<open>race\<close> (lines 239 to 254). For an element that is not a promise the callback of
  \<^verbatim>\<open>forEach\<close> calls \<^verbatim>\<open>resolve(promise)\<close> and goes on to \<^verbatim>\<open>promise.then(resolve)\<close>. No value
  other than \<open>Ref p\<close> has a method \<^verbatim>\<open>then\<close>, so this throws a \<^verbatim>\<open>TypeError\<close>, which ends the
  \<^verbatim>\<open>forEach\<close> and leaves the executor.
\<close>

fun race_forEach :: "addr \<Rightarrow> val list \<Rightarrow> world \<Rightarrow> completion \<times> world" where
  "race_forEach outer [] w = (Return Undefined, w)"
| "race_forEach outer (Ref p # rest) w =
     (let (d, w1) = Promize_then p (Func (OnFulfilledBind outer)) Undefined w;
          (e, w2) = Promize_catch d (Func (OnRejectedBind outer)) w1
      in race_forEach outer rest w2)"
| "race_forEach outer (promise # rest) w = (Throw TypeError, onFulfilled outer promise w)"

definition Promize_race :: "val list \<Rightarrow> world \<Rightarrow> addr \<times> world" where
  "Promize_race vs = new_Promize (\<lambda>outer w. race_forEach outer vs w)"

subsection \<open>Programs that use the class\<close>

text \<open>
  The body of an executor written by a user of the class, as in
  \<^verbatim>\<open>new Promize((resolve, reject) => { reject(10); })\<close> at the end of the source file: a
  sequence of calls of the two functions it is given, or a \<^verbatim>\<open>throw\<close>, which leaves the body.
\<close>

datatype statement = CallResolve val | CallReject val | ThrowError val

fun executor_body :: "statement list \<Rightarrow> addr \<Rightarrow> world \<Rightarrow> completion \<times> world" where
  "executor_body [] this w = (Return Undefined, w)"
| "executor_body (CallResolve v # body) this w = executor_body body this (onFulfilled this v w)"
| "executor_body (CallReject r # body) this w = executor_body body this (onRejected this r w)"
| "executor_body (ThrowError e # body) this w = (Throw e, w)"

text \<open>
  Everything that can happen to a world: the runtime runs the next microtask, or the
  program calls a function value, constructs a promise, or calls a method of the class.
\<close>

datatype operation =
    Microtask
  | Call val val
  | New "statement list"
  | Then addr val val
  | Catch addr val
  | Finally addr val
  | Resolve val
  | Reject val
  | All "val list"
  | AllSettled "val list"
  | Race "val list"

fun perform :: "operation \<Rightarrow> world \<Rightarrow> world" where
  "perform Microtask w = tick w"
| "perform (Call f v) w = snd (call f v w)"
| "perform (New body) w = snd (new_Promize (executor_body body) w)"
| "perform (Then p onF onR) w = snd (Promize_then p onF onR w)"
| "perform (Catch p cb) w = snd (Promize_catch p cb w)"
| "perform (Finally p cb) w = snd (Promize_finally p cb w)"
| "perform (Resolve v) w = snd (Promize_resolve v w)"
| "perform (Reject v) w = snd (Promize_reject v w)"
| "perform (All vs) w = snd (Promize_all vs w)"
| "perform (AllSettled vs) w = snd (Promize_allSettled vs w)"
| "perform (Race vs) w = snd (Promize_race vs w)"

text \<open>What an observer can learn of a promise: its state and its value.\<close>

definition outcome :: "world \<Rightarrow> addr \<Rightarrow> STATES \<times> val" where
  "outcome w p = (pstate (heap w p), pvalue (heap w p))"

text \<open>
  \<open>extends w w'\<close>: \<open>w'\<close> has every promise of \<open>w\<close> with its state and value, and its queue
  is the queue of \<open>w\<close> with tasks added at the end.
\<close>

definition extends :: "world \<Rightarrow> world \<Rightarrow> bool" where
  "extends w w' \<longleftrightarrow>
     fresh w \<le> fresh w' \<and> (\<forall>a<fresh w. outcome w' a = outcome w a) \<and>
     (\<exists>new. microtasks w' = microtasks w @ new)"


subsection \<open>Example worlds\<close>

text \<open>
  \<^verbatim>\<open>new Promize((resolve, reject) => { resolve(1); reject(2); resolve(3); })\<close> in the empty
  world, after the first microtask.
\<close>

definition w_twice :: world where
  "w_twice = run 1 (perform (New [CallResolve (Num 1), CallReject (Num 2), CallResolve (Num 3)]) world0)"

text \<open>\<^verbatim>\<open>Promize.resolve(9)\<close> in the empty world, its task still queued.\<close>

definition w_nine :: world where
  "w_nine = snd (Promize_resolve (Num 9) world0)"

text \<open>\<^verbatim>\<open>Promize.resolve(1)\<close> in the empty world, after its microtask: fulfilled with 1.\<close>

definition w_one :: world where
  "w_one = run 1 (snd (Promize_resolve (Num 1) world0))"



subsection \<open>The arguments of the combinators\<close>

text \<open>
  An element of the array passed to \<^verbatim>\<open>Promize.all\<close>: a value that is not a promise, or a
  promise made in the same turn of the event loop by \<^verbatim>\<open>Promize.resolve(v)\<close>, by
  \<^verbatim>\<open>Promize.reject(r)\<close>, or by \<^verbatim>\<open>new Promize(() => {})\<close>, which never settles.
\<close>

datatype input = Plain val | Succeeded val | Failed val | Unsettled



fun is_plain :: "input \<Rightarrow> bool" where
  "is_plain (Plain v) = True"
| "is_plain x = False"



text \<open>
  The reason of the first element that rejects. The rejections are queued in the order of
  the elements, so the first in the array is the first to reject.
\<close>

fun first_failure :: "input list \<Rightarrow> val option" where
  "first_failure [] = None"
| "first_failure (Failed r # xs) = Some r"
| "first_failure (x # xs) = first_failure xs"

definition npromises :: "input list \<Rightarrow> nat" where
  "npromises xs = length (filter (\<lambda>x. \<not> is_plain x) xs)"

definition nplain :: "input list \<Rightarrow> nat" where
  "nplain xs = length (filter is_plain xs)"

text \<open>The array that \<open>build\<close> returns when the first free address is \<open>a\<close>, and the tasks it queues.\<close>

fun values_from :: "addr \<Rightarrow> input list \<Rightarrow> val list" where
  "values_from a [] = []"
| "values_from a (Plain v # xs) = v # values_from a xs"
| "values_from a (x # xs) = Ref a # values_from (Suc a) xs"


subsection \<open>The promises that \<^verbatim>\<open>Promize.all\<close> chains to its elements\<close>

text \<open>
  For the element at index \<open>idx\<close> that is a promise, at address \<open>src\<close>, the loop of
  \<^verbatim>\<open>all\<close> evaluates \<^verbatim>\<open>promise.then(...).catch(reject)\<close> (lines 165 to 178): \<^verbatim>\<open>then\<close> allocates
  a promise at \<open>der\<close> and \<^verbatim>\<open>catch\<close> one at \<open>Suc der\<close>.
\<close>

datatype chain = Chain (idx: nat) (src: addr) (der: addr) (kind: input)

fun chains_of :: "nat \<Rightarrow> addr \<Rightarrow> addr \<Rightarrow> input list \<Rightarrow> chain list" where
  "chains_of i p d [] = []"
| "chains_of i p d (Plain v # xs) = chains_of (Suc i) p d xs"
| "chains_of i p d (x # xs) = Chain i p d x # chains_of (Suc i) (Suc p) (d + 2) xs"










subsection \<open>A batch of microtasks\<close>


text \<open>
  What a task does to a pending promise when its payload is not a promise (lines 304 to 307
  and 340 to 344): it sets state and value, runs the callbacks of its kind and empties
  their list.
\<close>

fun payload :: "microtask \<Rightarrow> val" where
  "payload (OnFulfilledTask p v) = v"
| "payload (OnRejectedTask p v) = v"


fun callbacks_for :: "microtask \<Rightarrow> promize \<Rightarrow> callback list" where
  "callbacks_for (OnFulfilledTask p v) c = thenCallbacks c"
| "callbacks_for (OnRejectedTask p v) c = catchCallbacks c"

text \<open>
  The callbacks of a batch of tasks, run one task after the other on the promises of the
  store \<open>h\<close>, and the store after all the tasks of the batch have settled their promises.
\<close>

fun deliver :: "microtask list \<Rightarrow> (addr \<Rightarrow> promize) \<Rightarrow> world \<Rightarrow> world" where
  "deliver [] h u = u"
| "deliver (m # ms) h u =
     deliver ms h (forEach_callback (callbacks_for m (h (target m))) (payload m) u)"



section \<open>Evaluating concrete programs\<close>

lemmas exec_defs = world0_def blank_def new_Promize_def Promize_then_def Promize_catch_def
  Promize_finally_def Promize_resolve_def Promize_reject_def Promize_all_def Promize_allSettled_def
  Promize_race_def new_activation_def executeCallbacks_def update_promize_def update_activation_def
  updateStateAndValue_def onFulfilled_def onRejected_def queueMicrotask_def tick_def
  result_set_def increment_def array_set_def outcome_def Let_def

lemma w_twice_facts: "fresh w_twice = 1" "outcome w_twice 0 = (FULFILLED, Num 1)"
  "microtasks w_twice = [OnRejectedTask 0 (Num 2), OnFulfilledTask 0 (Num 3)]"
  by (simp_all add: w_twice_def exec_defs)

lemma w_nine_facts: "fresh w_nine = 1" "microtasks w_nine = [OnFulfilledTask 0 (Num 9)]"
  by (simp_all add: w_nine_def exec_defs)

lemma run_empty: "microtasks w = [] \<Longrightarrow> run k w = w"
  by (induction k) (simp_all add: tick_def)

lemma drain_empty: "microtasks w = [] \<Longrightarrow> drain k w = Some w"
  by (cases k) simp_all


lemma w_one_facts: "fresh w_one = 1" "outcome w_one 0 = (FULFILLED, Num 1)" "microtasks w_one = []"
  "thenCallbacks (heap w_one 0) = []" "console w_one = []"
  by (simp_all add: w_one_def exec_defs)


section \<open>What every operation preserves\<close>

lemma extends_refl: "extends w w"
  by (simp add: extends_def)

lemma extends_trans: "extends w w1 \<Longrightarrow> extends w1 w2 \<Longrightarrow> extends w w2"
  by (auto simp: extends_def)

lemma extends_queueMicrotask: "extends w (queueMicrotask m w)"
  by (simp add: extends_def queueMicrotask_def outcome_def)

lemma extends_onFulfilled: "extends w (onFulfilled p v w)"
  by (simp add: onFulfilled_def extends_queueMicrotask)

lemma extends_onRejected: "extends w (onRejected p v w)"
  by (simp add: onRejected_def extends_queueMicrotask)

lemma extends_update_activation: "extends w (update_activation f g w)"
  by (simp add: extends_def update_activation_def outcome_def)

lemma extends_console: "extends w (w\<lparr>console := c\<rparr>)"
  by (simp add: extends_def outcome_def)

lemma extends_if: "extends w a \<Longrightarrow> extends w b \<Longrightarrow> extends w (if c then a else b)"
  by simp

lemma extends_call: "extends w (snd (call_fn f v w))" "extends w (snd (call g v w))"
proof (induction f v w and g v w rule: call_fn_call.induct)
  case (8 cb r w)
  then show ?case by (auto split: prod.splits completion.splits)
next
  case (9 cb r w)
  then show ?case by (auto split: prod.splits completion.splits)
qed (simp_all add: extends_def outcome_def Let_def increment_def result_set_def
      update_activation_def onFulfilled_def onRejected_def queueMicrotask_def)


lemma extends_run_callback: "extends w (run_callback cb r w)"
proof (cases cb)
  case (ThenCallback onF d)
  show ?thesis
    using extends_call(2)[of w onF r]
    by (auto simp: ThenCallback split: prod.splits completion.splits
        intro: extends_onFulfilled extends_onRejected
        elim: extends_trans[OF _ extends_onFulfilled] extends_trans[OF _ extends_onRejected])
next
  case (CatchCallback onR d)
  show ?thesis
    using extends_call(2)[of w onR r]
    by (auto simp: CatchCallback split: prod.splits completion.splits
        intro: extends_onFulfilled extends_onRejected
        elim: extends_trans[OF _ extends_onFulfilled] extends_trans[OF _ extends_onRejected])
qed

lemma extends_forEach_callback: "extends w (forEach_callback cbs v w)"
proof (induction cbs arbitrary: w)
  case Nil
  show ?case by (simp add: extends_refl)
next
  case (Cons cb cbs)
  show ?case
    using extends_trans[OF extends_run_callback Cons.IH] by simp
qed

lemma extends_update_promize:
  "pstate (g (heap w p)) = pstate (heap w p) \<Longrightarrow> pvalue (g (heap w p)) = pvalue (heap w p) \<Longrightarrow>
   extends w (update_promize p g w)"
  by (simp add: extends_def update_promize_def outcome_def)


lemma extends_executeCallbacks: "extends w (executeCallbacks this w)"
proof -
  have clear_then: "\<And>u. extends u (update_promize this (\<lambda>p. p\<lparr>thenCallbacks := []\<rparr>) u)"
    by (rule extends_update_promize) simp_all
  have clear_catch: "\<And>u. extends u (update_promize this (\<lambda>p. p\<lparr>catchCallbacks := []\<rparr>) u)"
    by (rule extends_update_promize) simp_all
  define w1 where "w1 = (if pstate (heap w this) = FULFILLED
                then update_promize this (\<lambda>p. p\<lparr>thenCallbacks := []\<rparr>)
                       (forEach_callback (thenCallbacks (heap w this)) (pvalue (heap w this)) w)
                else w)"
  have 1: "extends w w1"
    unfolding w1_def using extends_trans[OF extends_forEach_callback clear_then]
    by (simp add: extends_refl)
  have 2: "extends w1 (executeCallbacks this w)"
    unfolding executeCallbacks_def Let_def w1_def[symmetric]
    using extends_trans[OF extends_forEach_callback clear_catch]
    by (simp add: extends_refl)
  show ?thesis by (rule extends_trans[OF 1 2])
qed

lemma new_Promize_fst: "fst (new_Promize ex w) = fresh w"
  by (simp add: new_Promize_def Let_def split: prod.splits completion.splits)

lemma extends_new_Promize:
  assumes "\<And>this u. extends u (snd (ex this u))"
  shows "extends w (snd (new_Promize ex w))"
proof -
  define w1 where "w1 = w\<lparr>heap := (heap w)(fresh w := blank), fresh := Suc (fresh w)\<rparr>"
  have 1: "extends w w1"
    by (simp add: extends_def w1_def outcome_def)
  have 2: "extends w1 (snd (ex (fresh w) w1))" by (rule assms)
  have 3: "extends w1 (snd (new_Promize ex w))"
    using 2 extends_trans[OF 2 extends_onRejected]
    by (auto simp: new_Promize_def Let_def w1_def[symmetric] split: prod.splits completion.splits)
  show ?thesis by (rule extends_trans[OF 1 3])
qed

lemma fresh_new_Promize:
  assumes "\<And>this u. extends u (snd (ex this u))"
  shows "fresh w < fresh (snd (new_Promize ex w))"
proof -
  define w1 where "w1 = w\<lparr>heap := (heap w)(fresh w := blank), fresh := Suc (fresh w)\<rparr>"
  have 2: "extends w1 (snd (ex (fresh w) w1))" by (rule assms)
  have 3: "extends w1 (snd (new_Promize ex w))"
    using 2 extends_trans[OF 2 extends_onRejected]
    by (auto simp: new_Promize_def Let_def w1_def[symmetric] split: prod.splits completion.splits)
  then show ?thesis by (simp add: extends_def w1_def)
qed

lemma extends_then_executor:
  "extends u (snd (Return Undefined,
        executeCallbacks this
          (update_promize this (\<lambda>p. p\<lparr>catchCallbacks := catchCallbacks p @ [c2]\<rparr>)
            (update_promize this (\<lambda>p. p\<lparr>thenCallbacks := thenCallbacks p @ [c1]\<rparr>) u))))"
proof -
  have a: "\<And>u. extends u (update_promize this (\<lambda>p. p\<lparr>thenCallbacks := thenCallbacks p @ [c1]\<rparr>) u)"
    by (rule extends_update_promize) simp_all
  have b: "\<And>u. extends u (update_promize this (\<lambda>p. p\<lparr>catchCallbacks := catchCallbacks p @ [c2]\<rparr>) u)"
    by (rule extends_update_promize) simp_all
  show ?thesis
    using extends_trans[OF extends_trans[OF a b] extends_executeCallbacks] by simp
qed

lemma extends_then: "extends w (snd (Promize_then this onF onR w))"
  unfolding Promize_then_def by (rule extends_new_Promize) (rule extends_then_executor)

lemma fresh_then: "fresh w < fresh (snd (Promize_then this onF onR w))"
  unfolding Promize_then_def by (rule fresh_new_Promize) (rule extends_then_executor)

lemma then_fst: "fst (Promize_then this onF onR w) = fresh w"
  by (simp add: Promize_then_def new_Promize_fst)


lemma run_microtask_frame:
  "fresh w \<le> fresh (run_microtask m w) \<and>
   (\<exists>new. microtasks (run_microtask m w) = microtasks w @ new) \<and>
   (\<forall>a<fresh w. a \<noteq> target m \<or> pstate (heap w a) \<noteq> PENDING \<longrightarrow>
      outcome (run_microtask m w) a = outcome w a)"
proof -
  have settle: "fresh w \<le> fresh (executeCallbacks this (updateStateAndValue this s v w)) \<and>
    (\<exists>new. microtasks (executeCallbacks this (updateStateAndValue this s v w)) = microtasks w @ new) \<and>
    (\<forall>a<fresh w. a \<noteq> this \<longrightarrow>
       outcome (executeCallbacks this (updateStateAndValue this s v w)) a = outcome w a)"
    for this s v
    using extends_executeCallbacks[of "updateStateAndValue this s v w" this]
    by (auto simp: extends_def updateStateAndValue_def update_promize_def outcome_def)
  have adopt: "fresh w \<le> fresh (snd (Promize_then q f g w)) \<and>
    (\<exists>new. microtasks (snd (Promize_then q f g w)) = microtasks w @ new) \<and>
    (\<forall>a<fresh w. outcome (snd (Promize_then q f g w)) a = outcome w a)" for q f g
    using extends_then[of w q f g] by (simp add: extends_def)
  show ?thesis
  proof (cases m)
    case (OnFulfilledTask this v)
    show ?thesis
      using settle[of this FULFILLED v] adopt
      by (cases v) (simp_all add: OnFulfilledTask)
  next
    case (OnRejectedTask this v)
    show ?thesis
      using settle[of this REJECTED v] adopt
      by (cases v) (simp_all add: OnRejectedTask)
  qed
qed

lemma tick_frame:
  "fresh w \<le> fresh (tick w) \<and>
   (\<forall>a<fresh w. pstate (heap w a) \<noteq> PENDING \<longrightarrow> outcome (tick w) a = outcome w a)"
proof (cases "microtasks w")
  case Nil
  then show ?thesis by (simp add: tick_def)
next
  case (Cons m ms)
  show ?thesis
    using run_microtask_frame[of "w\<lparr>microtasks := ms\<rparr>" m]
    by (simp add: tick_def Cons outcome_def) blast
qed

lemma run_prefix:
  "microtasks w = q0 @ rest \<Longrightarrow> \<forall>m\<in>set q0. target m \<noteq> p \<Longrightarrow> p < fresh w \<Longrightarrow>
   outcome (run (length q0) w) p = outcome w p \<and> p < fresh (run (length q0) w) \<and>
   (\<exists>extra. microtasks (run (length q0) w) = rest @ extra)"
proof (induction q0 arbitrary: w rest)
  case Nil
  then show ?case by simp
next
  case (Cons m q0)
  define w' where "w' = tick w"
  have w': "w' = run_microtask m (w\<lparr>microtasks := q0 @ rest\<rparr>)"
    using Cons.prems(1) by (simp add: w'_def tick_def)
  from run_microtask_frame[of "w\<lparr>microtasks := q0 @ rest\<rparr>" m] Cons.prems
  obtain new where 1: "fresh w \<le> fresh w'" and 2: "microtasks w' = q0 @ (rest @ new)"
    and 3: "outcome w' p = outcome w p"
    by (auto simp: w' outcome_def)
  from Cons.IH[OF 2] Cons.prems 1
  have "outcome (run (length q0) w') p = outcome w' p \<and> p < fresh (run (length q0) w') \<and>
   (\<exists>extra. microtasks (run (length q0) w') = (rest @ new) @ extra)"
    by simp
  then show ?case using 3 by (auto simp: w'_def)
qed


lemma extends_executor_body: "extends u (snd (executor_body body this u))"
proof (induction body this u rule: executor_body.induct)
  case (2 v body this w)
  then show ?case using extends_trans[OF extends_onFulfilled] by simp
next
  case (3 r body this w)
  then show ?case using extends_trans[OF extends_onRejected] by simp
qed (simp_all add: extends_refl)

lemma extends_catch: "extends w (snd (Promize_catch this cb w))"
  by (simp add: Promize_catch_def extends_then)

lemma extends_finally: "extends w (snd (Promize_finally this cb w))"
  by (simp add: Promize_finally_def extends_then)


lemma instanceof_Promize_iff: "instanceof_Promize v \<longleftrightarrow> (\<exists>p. v = Ref p)"
  by (cases v) simp_all

lemma all_loop_plain:
  "\<not> instanceof_Promize v \<Longrightarrow>
   all_loop f n outer i (v # rest) w =
     all_loop f n outer (Suc i) rest
       (increment f (result_set f i v
          (if completedPromises (activations w f) = int n - 1
           then onFulfilled outer (ResultArr f) w else w)))"
  by (cases v) (simp_all add: Let_def)

lemma allSettled_loop_plain:
  "\<not> instanceof_Promize v \<Longrightarrow>
   allSettled_loop f n outer i (v # rest) w =
     allSettled_loop f n outer (Suc i) rest
       (increment f (result_set f i (StatusValue (toLowerCase (STATES_string FULFILLED)) v)
          (if completedPromises (activations w f) = int n - 1
           then onFulfilled outer (ResultArr f) w else w)))"
  by (cases v) (simp_all add: Let_def)

lemma race_forEach_plain:
  "\<not> instanceof_Promize v \<Longrightarrow>
   race_forEach outer (v # rest) w = (Throw TypeError, onFulfilled outer v w)"
  by (cases v) simp_all

lemma extends_result_set: "extends w (result_set f i v w)"
  by (simp add: result_set_def extends_update_activation)

lemma extends_increment: "extends w (increment f w)"
  by (simp add: increment_def extends_update_activation)

lemma extends_all_loop: "extends w (all_loop f n outer i vs w)"
proof (induction vs arbitrary: i w)
  case Nil
  show ?case by (simp add: extends_refl)
next
  case (Cons v vs)
  show ?case
  proof (cases "instanceof_Promize v")
    case True
    then obtain p where v: "v = Ref p" by (auto simp: instanceof_Promize_iff)
    obtain d w1 where 1: "Promize_then p (Func (AllThen f n outer i)) Undefined w = (d, w1)"
      by (cases "Promize_then p (Func (AllThen f n outer i)) Undefined w")
    obtain e w2 where 2: "Promize_catch d (Func (OnRejectedBind outer)) w1 = (e, w2)"
      by (cases "Promize_catch d (Func (OnRejectedBind outer)) w1")
    have a: "extends w w1" using extends_then[of w p] 1 by (metis snd_conv)
    have b: "extends w1 w2" using extends_catch[of w1 d] 2 by (metis snd_conv)
    show ?thesis
      using extends_trans[OF extends_trans[OF a b] Cons.IH[where i="Suc i" and w=w2]] by (simp add: v 1 2)
  next
    case False
    define w1 where "w1 = (if completedPromises (activations w f) = int n - 1
           then onFulfilled outer (ResultArr f) w else w)"
    have a: "extends w w1" by (simp add: w1_def extends_onFulfilled extends_refl)
    have b: "extends w1 (increment f (result_set f i v w1))"
      by (rule extends_trans[OF extends_result_set extends_increment])
    show ?thesis
      using extends_trans[OF extends_trans[OF a b] Cons.IH]
      by (simp add: all_loop_plain[OF False] w1_def)
  qed
qed

lemma extends_allSettled_loop: "extends w (allSettled_loop f n outer i vs w)"
proof (induction vs arbitrary: i w)
  case Nil
  show ?case by (simp add: extends_refl)
next
  case (Cons v vs)
  show ?case
  proof (cases "instanceof_Promize v")
    case True
    then obtain p where v: "v = Ref p" by (auto simp: instanceof_Promize_iff)
    obtain d w1 where 1: "Promize_then p (Func (AllSettledThen f n outer i)) Undefined w = (d, w1)"
      by (cases "Promize_then p (Func (AllSettledThen f n outer i)) Undefined w")
    obtain e w2 where 2: "Promize_catch d (Func (AllSettledCatch f i)) w1 = (e, w2)"
      by (cases "Promize_catch d (Func (AllSettledCatch f i)) w1")
    obtain g w3 where 3: "Promize_finally e (Func (AllSettledFinally f n outer)) w2 = (g, w3)"
      by (cases "Promize_finally e (Func (AllSettledFinally f n outer)) w2")
    have a: "extends w w1" using extends_then[of w p] 1 by (metis snd_conv)
    have b: "extends w1 w2" using extends_catch[of w1 d] 2 by (metis snd_conv)
    have c: "extends w2 w3" using extends_finally[of w2 e] 3 by (metis snd_conv)
    show ?thesis
      using extends_trans[OF extends_trans[OF extends_trans[OF a b] c] Cons.IH[where i="Suc i" and w=w3]]
      by (simp add: v 1 2 3)
  next
    case False
    define w1 where "w1 = (if completedPromises (activations w f) = int n - 1
           then onFulfilled outer (ResultArr f) w else w)"
    have a: "extends w w1" by (simp add: w1_def extends_onFulfilled extends_refl)
    have b: "extends w1 (increment f (result_set f i (StatusValue (toLowerCase (STATES_string FULFILLED)) v) w1))"
      by (rule extends_trans[OF extends_result_set extends_increment])
    show ?thesis
      using extends_trans[OF extends_trans[OF a b] Cons.IH]
      by (simp add: allSettled_loop_plain[OF False] w1_def)
  qed
qed

lemma extends_race_forEach: "extends w (snd (race_forEach outer vs w))"
proof (induction vs arbitrary: w)
  case Nil
  show ?case by (simp add: extends_refl)
next
  case (Cons v vs)
  show ?case
  proof (cases "instanceof_Promize v")
    case True
    then obtain p where v: "v = Ref p" by (auto simp: instanceof_Promize_iff)
    obtain d w1 where 1: "Promize_then p (Func (OnFulfilledBind outer)) Undefined w = (d, w1)"
      by (cases "Promize_then p (Func (OnFulfilledBind outer)) Undefined w")
    obtain e w2 where 2: "Promize_catch d (Func (OnRejectedBind outer)) w1 = (e, w2)"
      by (cases "Promize_catch d (Func (OnRejectedBind outer)) w1")
    have a: "extends w w1" using extends_then[of w p] 1 by (metis snd_conv)
    have b: "extends w1 w2" using extends_catch[of w1 d] 2 by (metis snd_conv)
    show ?thesis
      using extends_trans[OF extends_trans[OF a b] Cons.IH[of w2]] by (simp add: v 1 2)
  next
    case False
    show ?thesis by (simp add: race_forEach_plain[OF False] extends_onFulfilled)
  qed
qed

lemma extends_new_activation: "extends w (snd (new_activation w))"
  by (simp add: new_activation_def extends_def outcome_def)

lemma extends_perform_sync:
  "op \<noteq> Microtask \<Longrightarrow> extends w (perform op w)"
proof (cases op)
  case (Call f v)
  then show ?thesis by (simp add: extends_call)
next
  case (New body)
  then show ?thesis by (simp add: extends_new_Promize extends_executor_body)
next
  case (Resolve v)
  then show ?thesis
    by (simp add: Promize_resolve_def extends_new_Promize extends_onFulfilled)
next
  case (Reject v)
  then show ?thesis
    by (simp add: Promize_reject_def extends_new_Promize extends_onRejected)
next
  case (All vs)
  obtain f w0 where 0: "new_activation w = (f, w0)" by (cases "new_activation w")
  have a: "extends w w0" using extends_new_activation[of w] 0 by simp
  have b: "extends w0 (snd (new_Promize (\<lambda>outer w'. (Return Undefined, all_loop f (length vs) outer 0 vs w')) w0))"
    by (rule extends_new_Promize) (simp add: extends_all_loop)
  show ?thesis using extends_trans[OF a b] by (simp add: All Promize_all_def 0)
next
  case (AllSettled vs)
  obtain f w0 where 0: "new_activation w = (f, w0)" by (cases "new_activation w")
  have a: "extends w w0" using extends_new_activation[of w] 0 by simp
  have b: "extends w0 (snd (new_Promize (\<lambda>outer w'. (Return Undefined, allSettled_loop f (length vs) outer 0 vs w')) w0))"
    by (rule extends_new_Promize) (simp add: extends_allSettled_loop)
  show ?thesis using extends_trans[OF a b] by (simp add: AllSettled Promize_allSettled_def 0)
next
  case (Race vs)
  then show ?thesis
    by (simp add: Promize_race_def extends_new_Promize extends_race_forEach)
qed (simp_all add: extends_then extends_catch extends_finally)

lemma perform_stable:
  assumes "p < fresh w" and "pstate (heap w p) \<noteq> PENDING"
  shows "outcome (perform op w) p = outcome w p \<and> p < fresh (perform op w)"
proof (cases "op = Microtask")
  case True
  then show ?thesis using tick_frame[of w] assms by auto
next
  case False
  then show ?thesis using extends_perform_sync[OF False, of w] assms by (auto simp: extends_def)
qed

lemma fold_perform_stable:
  "p < fresh w \<Longrightarrow> pstate (heap w p) \<noteq> PENDING \<Longrightarrow>
   outcome (fold perform ops w) p = outcome w p \<and> p < fresh (fold perform ops w)"
proof (induction ops arbitrary: w)
  case Nil
  then show ?case by simp
next
  case (Cons op ops)
  from perform_stable[OF Cons.prems, of op]
  have 1: "outcome (perform op w) p = outcome w p" and 2: "p < fresh (perform op w)" by simp_all
  from 1 Cons.prems(2) have 3: "pstate (heap (perform op w) p) \<noteq> PENDING"
    by (simp add: outcome_def)
  from Cons.IH[OF 2 3] 1 show ?case by simp
qed

section \<open>The task that settles a promise\<close>

lemma outcome_executeCallbacks:
  "p < fresh w \<Longrightarrow> outcome (executeCallbacks this w) p = outcome w p"
  using extends_executeCallbacks[of w this] by (simp add: extends_def)

lemma tick_fulfils:
  assumes "microtasks w = OnFulfilledTask p v # ms" and "pstate (heap w p) = PENDING"
    and "\<not> instanceof_Promize v" and "p < fresh w"
  shows "outcome (tick w) p = (FULFILLED, v) \<and> p < fresh (tick w)"
proof -
  define u where "u = updateStateAndValue p FULFILLED v (w\<lparr>microtasks := ms\<rparr>)"
  have t: "tick w = executeCallbacks p u"
    using assms(1,2,3) by (cases v) (simp_all add: tick_def u_def)
  have u: "p < fresh u" "outcome u p = (FULFILLED, v)"
    using assms(4) by (simp_all add: u_def updateStateAndValue_def update_promize_def outcome_def)
  show ?thesis
    using outcome_executeCallbacks[OF u(1), of p] u extends_executeCallbacks[of u p]
    by (simp add: t extends_def)
qed


lemma run_add: "run (j + k) w = run k (run j w)"
  by (induction j arbitrary: w) simp_all

lemma run_Suc_end: "run (Suc k) w = tick (run k w)"
  using run_add[of k 1 w] by simp

text \<open>A fresh pending promise whose fulfilment is queued behind tasks for other promises.\<close>

lemma queued_fulfilment_wins:
  assumes q: "microtasks w = q0 @ OnFulfilledTask p v # rest"
    and others: "\<forall>m\<in>set q0. target m \<noteq> p"
    and p: "p < fresh w" "pstate (heap w p) = PENDING"
    and v: "\<not> instanceof_Promize v"
  shows "outcome (fold perform ops (run (Suc (length q0)) w)) p = (FULFILLED, v)"
proof -
  define w1 where "w1 = run (length q0) w"
  from run_prefix[OF q others p(1)]
  obtain extra where 1: "outcome w1 p = outcome w p" and 2: "p < fresh w1"
    and 3: "microtasks w1 = OnFulfilledTask p v # (rest @ extra)"
    by (auto simp: w1_def)
  have 4: "pstate (heap w1 p) = PENDING" using 1 p(2) by (simp add: outcome_def)
  from tick_fulfils[OF 3 4 v 2]
  have 5: "outcome (tick w1) p = (FULFILLED, v)" and 6: "p < fresh (tick w1)" by simp_all
  have 7: "pstate (heap (tick w1) p) \<noteq> PENDING" using 5 by (simp add: outcome_def)
  have 8: "run (Suc (length q0)) w = tick w1"
    by (simp only: run_Suc_end w1_def)
  show ?thesis using fold_perform_stable[OF 6 7, of ops] 5 by (simp only: 8)
qed

section \<open>A promise as the argument of resolve and reject\<close>












section \<open>The state of a promise changes at most once\<close>

text \<open>
  Claim C1. A promise that has left \<open>PENDING\<close> keeps its state and its value through every
  sequence of operations: microtasks, calls of function values (the \<^verbatim>\<open>resolve\<close> and
  \<^verbatim>\<open>reject\<close> of any promise among them), constructions and method calls. So the state
  changes at most once, from \<open>PENDING\<close> to \<open>FULFILLED\<close> or to \<open>REJECTED\<close>. The microtask
  of a later call of \<^verbatim>\<open>resolve\<close> or \<^verbatim>\<open>reject\<close> on a settled promise leaves the whole world
  as it is.
\<close>

theorem settles_at_most_once:
  assumes "p < fresh w" and "pstate (heap w p) \<noteq> PENDING"
  shows "outcome (fold perform ops w) p = outcome w p \<and>
         run_microtask (OnFulfilledTask p v) w = w \<and>
         run_microtask (OnRejectedTask p r) w = w"
  using fold_perform_stable[OF assms] assms(2) by simp

text \<open>
  The executor \<^verbatim>\<open>(resolve, reject) => { resolve(1); reject(2); resolve(3); }\<close>: after the
  first microtask the promise is fulfilled with 1, and the two tasks still queued, a late
  call of \<^verbatim>\<open>reject\<close> and its task change nothing.
\<close>

theorem settles_at_most_once_witness:
  "(0::nat) < fresh w_twice \<and> pstate (heap w_twice 0) \<noteq> PENDING \<and>
   outcome (fold perform [Microtask, Microtask, Call (Func (OnRejectedBind 0)) (Str ''late''), Microtask] w_twice) 0
     = (FULFILLED, Num 1) \<and>
   run_microtask (OnFulfilledTask 0 (Num 3)) w_twice = w_twice \<and>
   run_microtask (OnRejectedTask 0 (Num 2)) w_twice = w_twice"
proof -
  have a: "(0::nat) < fresh w_twice" and b: "pstate (heap w_twice 0) \<noteq> PENDING"
    using w_twice_facts by (simp_all add: outcome_def)
  show ?thesis
    using settles_at_most_once[OF a b, of "[Microtask, Microtask, Call (Func (OnRejectedBind 0)) (Str ''late''), Microtask]" "Num 3" "Num 2"]
      a b w_twice_facts(2) by simp
qed

section \<open>resolve with a promise\<close>



section \<open>then on a promise that is settled already\<close>

text \<open>
  Claim C3 says that a continuation registered on a settled promise fires only after the
  code that registered it has finished. The code does otherwise: \<^verbatim>\<open>then\<close> pushes its two
  callbacks and calls \<^verbatim>\<open>#executeCallbacks()\<close> at once (line 103), which on a fulfilled promise
  calls the callback, and the callback calls the handler (line 75). Only the settlement of
  the promise that \<^verbatim>\<open>then\<close> returns goes through \<^verbatim>\<open>queueMicrotask\<close>. With \<^verbatim>\<open>console.log\<close> as the
  handler: when \<^verbatim>\<open>then\<close> returns, with no microtask run, the console holds the value.
\<close>

theorem then_on_settled_calls_handler_at_once:
  assumes "p < fresh w" and "pstate (heap w p) = FULFILLED" and "thenCallbacks (heap w p) = []"
  shows "console (snd (Promize_then p (Func ConsoleLog) onR w)) = console w @ [pvalue (heap w p)] \<and>
         microtasks (snd (Promize_then p (Func ConsoleLog) onR w)) =
           microtasks w @ [OnFulfilledTask (fresh w) Undefined]"
  using assms by (simp add: exec_defs)

text \<open>
  \<^verbatim>\<open>const p = Promize.resolve(1)\<close>, and once it is fulfilled \<^verbatim>\<open>p.then(console.log)\<close>: 1 is
  printed during the call.
\<close>

theorem then_on_settled_calls_handler_at_once_witness:
  "(0::nat) < fresh w_one \<and> pstate (heap w_one 0) = FULFILLED \<and> thenCallbacks (heap w_one 0) = [] \<and>
   console (snd (Promize_then 0 (Func ConsoleLog) Undefined w_one)) = [Num 1] \<and>
   microtasks (snd (Promize_then 0 (Func ConsoleLog) Undefined w_one)) = [OnFulfilledTask 1 Undefined]"
proof -
  have a: "(0::nat) < fresh w_one" and b: "pstate (heap w_one 0) = FULFILLED"
    and c: "thenCallbacks (heap w_one 0) = []"
    using w_one_facts by (simp_all add: outcome_def)
  show ?thesis
    using then_on_settled_calls_handler_at_once[OF a b c, of Undefined] a b c w_one_facts
    by (simp add: outcome_def)
qed

section \<open>Promize.reject\<close>




section \<open>all and allSettled on the empty sequence\<close>

text \<open>
  Claim C5 says that \<^verbatim>\<open>all\<close> on the empty sequence fulfils at once with an empty sequence.
  In the code \<^verbatim>\<open>resolve\<close> is called only inside the loop over the elements (lines 157 and
  176), which does not run: nothing is queued, and the promise returned stays pending
  however long the runtime runs.
\<close>

theorem all_empty_stays_pending:
  assumes "microtasks w = []"
  shows "fst (Promize_all [] w) = fresh w \<and>
         outcome (run k (snd (Promize_all [] w))) (fresh w) = (PENDING, Undefined) \<and>
         drain k (snd (Promize_all [] w)) = Some (snd (Promize_all [] w))"
proof -
  have q: "microtasks (snd (Promize_all [] w)) = []"
    using assms by (simp add: exec_defs)
  have o: "outcome (snd (Promize_all [] w)) (fresh w) = (PENDING, Undefined)"
    by (simp add: exec_defs)
  have f: "fst (Promize_all [] w) = fresh w"
    by (simp add: exec_defs)
  show ?thesis by (simp only: run_empty[OF q] o drain_empty[OF q] f simp_thms)
qed

theorem all_empty_stays_pending_witness:
  "microtasks world0 = [] \<and> fst (Promize_all [] world0) = 0 \<and>
   outcome (run 10 (snd (Promize_all [] world0))) 0 = (PENDING, Undefined) \<and>
   drain 10 (snd (Promize_all [] world0)) = Some (snd (Promize_all [] world0))"
proof -
  have a: "microtasks world0 = []" by (simp add: world0_def)
  have b: "fresh world0 = 0" by (simp add: world0_def)
  show ?thesis using all_empty_stays_pending[OF a, of 10] a by (simp only: b simp_thms)
qed

text \<open>
  Claim C8 says that \<^verbatim>\<open>allSettled\<close> fulfils for every input sequence. For the empty sequence
  it does not, for the same reason: \<^verbatim>\<open>resolve\<close> is called only inside the loop (lines 204,
  219 and 233).
\<close>

theorem allSettled_empty_stays_pending:
  assumes "microtasks w = []"
  shows "fst (Promize_allSettled [] w) = fresh w \<and>
         outcome (run k (snd (Promize_allSettled [] w))) (fresh w) = (PENDING, Undefined) \<and>
         drain k (snd (Promize_allSettled [] w)) = Some (snd (Promize_allSettled [] w))"
proof -
  have q: "microtasks (snd (Promize_allSettled [] w)) = []"
    using assms by (simp add: exec_defs)
  have o: "outcome (snd (Promize_allSettled [] w)) (fresh w) = (PENDING, Undefined)"
    by (simp add: exec_defs)
  have f: "fst (Promize_allSettled [] w) = fresh w"
    by (simp add: exec_defs)
  show ?thesis by (simp only: run_empty[OF q] o drain_empty[OF q] f simp_thms)
qed

theorem allSettled_empty_stays_pending_witness:
  "microtasks world0 = [] \<and> fst (Promize_allSettled [] world0) = 0 \<and>
   outcome (run 10 (snd (Promize_allSettled [] world0))) 0 = (PENDING, Undefined) \<and>
   drain 10 (snd (Promize_allSettled [] world0)) = Some (snd (Promize_allSettled [] world0))"
proof -
  have a: "microtasks world0 = []" by (simp add: world0_def)
  have b: "fresh world0 = 0" by (simp add: world0_def)
  show ?thesis using allSettled_empty_stays_pending[OF a, of 10] a by (simp only: b simp_thms)
qed

section \<open>race with a plain first element\<close>

text \<open>
  Claim C9. \<^verbatim>\<open>Promize.race\<close> over a sequence whose first element is not a promise returns a
  promise that is fulfilled with that element, whatever follows it in the sequence and
  whatever tasks are queued for the promises that exist already: the task that fulfils it
  is queued by the call itself, before any task that could settle it otherwise. It stays
  so through every later operation.
\<close>

theorem race_plain_first_wins:
  assumes "\<not> instanceof_Promize v" and "list_all (\<lambda>m. target m < fresh w) (microtasks w)"
  shows "fst (Promize_race (v # rest) w) = fresh w \<and>
         outcome (fold perform ops (run (Suc (length (microtasks w))) (snd (Promize_race (v # rest) w))))
           (fresh w) = (FULFILLED, v)"
proof -
  define w1 where "w1 = snd (Promize_race (v # rest) w)"
  have 1: "microtasks w1 = microtasks w @ OnFulfilledTask (fresh w) v # [OnRejectedTask (fresh w) TypeError]"
    and 2: "fresh w < fresh w1" and 3: "pstate (heap w1 (fresh w)) = PENDING"
    by (simp_all add: w1_def Promize_race_def new_Promize_def race_forEach_plain[OF assms(1)]
        onFulfilled_def onRejected_def queueMicrotask_def blank_def Let_def)
  have 4: "\<forall>m\<in>set (microtasks w). target m \<noteq> fresh w"
    using assms(2) by (auto simp: list_all_iff)
  show ?thesis
    using queued_fulfilment_wins[OF 1 4 2 3 assms(1), of ops]
    by (simp add: w1_def Promize_race_def new_Promize_fst)
qed

text \<open>\<^verbatim>\<open>Promize.race([5, Promize.resolve(9)])\<close>: the promise returned is fulfilled with 5.\<close>

theorem race_plain_first_wins_witness:
  "\<not> instanceof_Promize (Num 5) \<and> list_all (\<lambda>m. target m < fresh w_nine) (microtasks w_nine) \<and>
   fst (Promize_race [Num 5, Ref 0] w_nine) = 1 \<and>
   outcome (run 2 (snd (Promize_race [Num 5, Ref 0] w_nine))) 1 = (FULFILLED, Num 5)"
proof -
  have a: "\<not> instanceof_Promize (Num 5)" by simp
  have b: "list_all (\<lambda>m. target m < fresh w_nine) (microtasks w_nine)"
    by (simp add: w_nine_facts)
  show ?thesis
    using race_plain_first_wins[OF a b, of "[Ref 0]" "[]"] a b
    by (simp add: w_nine_facts numeral_2_eq_2)
qed

section \<open>race with a plain element after promises\<close>









section \<open>A batch of microtasks for pending promises\<close>

subsection \<open>Callbacks do not look at the store of promises\<close>

lemma call_heap:
  "call_fn f v (u\<lparr>heap := h\<rparr>) = (fst (call_fn f v u), (snd (call_fn f v u))\<lparr>heap := h\<rparr>)"
  "call g v (u\<lparr>heap := h\<rparr>) = (fst (call g v u), (snd (call g v u))\<lparr>heap := h\<rparr>)"
proof (induction f v u and g v u rule: call_fn_call.induct)
  case (8 cb r w)
  then show ?case by (simp split: prod.splits completion.splits)
next
  case (9 cb r w)
  then show ?case by (simp split: prod.splits completion.splits)
qed (simp_all add: Let_def increment_def result_set_def
      update_activation_def onFulfilled_def onRejected_def queueMicrotask_def)

lemma run_callback_heap:
  "run_callback cb r (u\<lparr>heap := h\<rparr>) = (run_callback cb r u)\<lparr>heap := h\<rparr>"
  by (cases cb)
     (simp_all add: call_heap onFulfilled_def onRejected_def queueMicrotask_def
        split: prod.splits completion.splits)

lemma forEach_callback_heap:
  "forEach_callback cbs v (u\<lparr>heap := h\<rparr>) = (forEach_callback cbs v u)\<lparr>heap := h\<rparr>"
  by (induction cbs arbitrary: u) (simp_all add: run_callback_heap)

lemma heap_forEach_callback [simp]: "heap (forEach_callback cbs v u) = heap u"
proof -
  have "forEach_callback cbs v u = forEach_callback cbs v (u\<lparr>heap := heap u\<rparr>)" by simp
  also have "\<dots> = (forEach_callback cbs v u)\<lparr>heap := heap u\<rparr>" by (rule forEach_callback_heap)
  finally show ?thesis by (metis world.select_convs(1) world.surjective world.update_convs(1))
qed

lemma fresh_call:
  "fresh (snd (call_fn f v u)) = fresh u" "fresh (snd (call g v u)) = fresh u"
proof (induction f v u and g v u rule: call_fn_call.induct)
  case (8 cb r w)
  then show ?case by (auto split: prod.splits completion.splits)
next
  case (9 cb r w)
  then show ?case by (auto split: prod.splits completion.splits)
qed (simp_all add: Let_def increment_def result_set_def
      update_activation_def onFulfilled_def onRejected_def queueMicrotask_def)

lemma fresh_callD: "call g v u = (c, u') \<Longrightarrow> fresh u' = fresh u"
  using fresh_call(2)[of g v u] by simp

lemma fresh_run_callback [simp]: "fresh (run_callback cb r u) = fresh u"
  by (cases cb)
     (auto simp: onFulfilled_def onRejected_def queueMicrotask_def
        split: prod.splits completion.splits dest: fresh_callD)

lemma fresh_forEach_callback [simp]: "fresh (forEach_callback cbs v u) = fresh u"
  by (induction cbs arbitrary: u) simp_all

subsection \<open>Tasks in front of the queue do not matter to a task\<close>











subsection \<open>Tasks for different promises, none of them a promise as payload\<close>




lemma heap_deliver [simp]: "heap (deliver ms h u) = heap u"
  by (induction ms arbitrary: u) simp_all

lemma fresh_deliver [simp]: "fresh (deliver ms h u) = fresh u"
  by (induction ms arbitrary: u) simp_all




section \<open>\<^verbatim>\<open>Promize.all\<close> until it returns\<close>

lemma npromises_simps [simp]:
  "npromises [] = 0"
  "npromises (Plain v # xs) = npromises xs"
  "npromises (Succeeded v # xs) = Suc (npromises xs)"
  "npromises (Failed r # xs) = Suc (npromises xs)"
  "npromises (Unsettled # xs) = Suc (npromises xs)"
  by (simp_all add: npromises_def)


lemma nplain_simps [simp]:
  "nplain [] = 0"
  "nplain (Plain v # xs) = Suc (nplain xs)"
  "nplain (Succeeded v # xs) = nplain xs"
  "nplain (Failed r # xs) = nplain xs"
  "nplain (Unsettled # xs) = nplain xs"
  by (simp_all add: nplain_def)










lemma length_values_from [simp]: "length (values_from p xs) = length xs"
proof (induction xs arbitrary: p)
  case Nil
  show ?case by simp
next
  case (Cons x xs)
  then show ?case by (cases x) simp_all
qed



section \<open>\<^verbatim>\<open>Promize.all\<close> in the event loop\<close>








subsection \<open>Facts about the chains\<close>

lemma length_chains [simp]: "length (chains_of i p d xs) = npromises xs"
proof (induction xs arbitrary: i p d)
  case Nil
  show ?case by simp
next
  case (Cons x xs)
  then show ?case by (cases x) simp_all
qed







lemma first_failure_plain: "list_all is_plain xs \<Longrightarrow> first_failure xs = None"
proof (induction xs)
  case Nil
  show ?case by simp
next
  case (Cons x xs)
  then show ?case by (cases x) simp_all
qed












subsection \<open>The array of results\<close>












subsection \<open>The three rounds of microtasks of \<^verbatim>\<open>Promize.all\<close>\<close>




subsection \<open>What \<^verbatim>\<open>Promize.all\<close> settles to\<close>


section \<open>\<^verbatim>\<open>Promize.all\<close> on values and promises\<close>






end
